theory Spec2Isabelle
  imports Main
begin

section \<open>JavaScript values\<close>

text \<open>
  The values that can be thrown, passed to \<open>isAbortError\<close> or carried by a promise.
  An object is its prototype identity (a number: two realms or two copies of the module
  give the same class two different identities) and its properties as \<open>error.name\<close>
  resolves them (own and inherited, first binding wins). A function is kept apart from
  the other objects because \<open>typeof\<close> tells them apart; it carries its \<open>name\<close>.
  Numbers are payload only, no arithmetic is done on them.
\<close>

datatype jsval =
    JUndefined
  | JNull
  | JBoolean bool
  | JNumber int
  | JString string
  | JFunction string
  | JObject nat "(string \<times> jsval) list"

fun typeof :: "jsval \<Rightarrow> string" where
  "typeof JUndefined = ''undefined''"
| "typeof JNull = ''object''"
| "typeof (JBoolean b) = ''boolean''"
| "typeof (JNumber n) = ''number''"
| "typeof (JString s) = ''string''"
| "typeof (JFunction f) = ''function''"
| "typeof (JObject p props) = ''object''"

text \<open>
  Reading \<open>v.name\<close>. On \<open>undefined\<close> and \<open>null\<close> the read throws a TypeError
  (\<open>None\<close>); a primitive has no such property; an object answers from its properties.
\<close>

fun get_name :: "jsval \<Rightarrow> jsval option" where
  "get_name JUndefined = None"
| "get_name JNull = None"
| "get_name (JBoolean b) = Some JUndefined"
| "get_name (JNumber n) = Some JUndefined"
| "get_name (JString s) = Some JUndefined"
| "get_name (JFunction f) = Some (JString f)"
| "get_name (JObject p props) =
     Some (case map_of props ''name'' of None \<Rightarrow> JUndefined | Some v \<Rightarrow> v)"

section \<open>AbortError.js\<close>

text \<open>
  \<open>new AbortError()\<close>: an object of the module's own class with the fixed message and
  the name tag (the stack trace is left out). \<open>AbortError_proto\<close> is the identity of
  this module's class.
\<close>

definition AbortError_proto :: nat where
  "AbortError_proto = 1"

definition new_AbortError :: jsval where
  "new_AbortError =
     JObject AbortError_proto
       [(''message'', JString ''The operation has been aborted''),
        (''name'', JString ''AbortError'')]"

text \<open>
  \<open>typeof error === 'object' && error !== null && error.name === 'AbortError'\<close>,
  with the short circuit of \<open>&&\<close>: the name is read only from a non-null object.
\<close>

definition isAbortError :: "jsval \<Rightarrow> bool" where
  "isAbortError error =
     (if typeof error = ''object'' then
        (if error \<noteq> JNull then
           (case get_name error of
              Some v \<Rightarrow> v = JString ''AbortError''
            | None \<Rightarrow> False)
         else False)
      else False)"

text \<open>The part of an \<open>AbortSignal\<close> the library reads: the flag and the listeners
  that other code has registered for the abort event (opaque handles).\<close>

record signal =
  aborted :: bool
  listeners :: "nat list"

text \<open>A call that may throw returns \<open>Inl\<close> of the thrown value.\<close>

definition throwIfAborted :: "signal \<Rightarrow> jsval + unit" where
  "throwIfAborted sig = (if aborted sig then Inl new_AbortError else Inr ())"

definition rethrowAbortError :: "jsval \<Rightarrow> jsval + unit" where
  "rethrowAbortError error = (if isAbortError error then Inl error else Inr ())"

definition catchAbortError :: "jsval \<Rightarrow> jsval + unit" where
  "catchAbortError error = (if isAbortError error then Inr () else Inl error)"

section \<open>The promise interface\<close>

text \<open>
  The promise a combinator returns. \<open>resolve\<close> and \<open>reject\<close> take effect on a
  pending promise only; a later call changes nothing.
\<close>

datatype 'r promise_state = Pending | Fulfilled 'r | Rejected jsval

definition settle :: "'r promise_state \<Rightarrow> 'r promise_state \<Rightarrow> 'r promise_state" where
  "settle new p = (if p = Pending then new else p)"

text \<open>
  What happens after the call returns: the future at an index fulfils with a value or
  rejects with a reason (which runs the callback that \<open>then\<close> attached to it), or the
  outer signal is aborted. The futures themselves belong to the caller, so a run is
  described by the list of these events in the order the event loop delivers them.
\<close>

datatype event = Fulfill nat jsval | Reject nat jsval | Abort

fun settles :: "event \<Rightarrow> nat option" where
  "settles (Fulfill i v) = Some i"
| "settles (Reject i r) = Some i"
| "settles Abort = None"

definition settled_futures :: "event list \<Rightarrow> nat list" where
  "settled_futures evs = List.map_filter settles evs"

text \<open>
  A promise settles at most once and the callbacks are attached to the futures at the
  indices below \<open>promises.length\<close>: a schedule for \<open>n\<close> futures settles each index
  at most once and only indices below \<open>n\<close>.
\<close>

definition wf_schedule :: "nat \<Rightarrow> event list \<Rightarrow> bool" where
  "wf_schedule n evs \<longleftrightarrow>
     distinct (settled_futures evs) \<and> list_all (\<lambda>i. i < n) (settled_futures evs)"

fun reason_of :: "event \<Rightarrow> jsval option" where
  "reason_of (Reject i r) = Some r"
| "reason_of (Fulfill i v) = None"
| "reason_of Abort = None"

definition rejection_reasons :: "event list \<Rightarrow> jsval list" where
  "rejection_reasons evs = List.map_filter reason_of evs"

definition genuine_reasons :: "event list \<Rightarrow> jsval list" where
  "genuine_reasons evs = filter (\<lambda>r. \<not> isAbortError r) (rejection_reasons evs)"

section \<open>State of one combinator call\<close>

text \<open>
  The listeners of the outer signal while the call runs: the call's own
  \<open>abortListener\<close> closure (a fresh function, so distinct from every listener that was
  there before) and the ones registered by other code.
\<close>

datatype listener = AbortInner | Foreign nat

text \<open>
  What both combinators share: the outer signal, how often \<open>executor\<close> has been
  invoked, the inner controller (\<open>None\<close> until it is created, then its signal's
  \<open>aborted\<close> flag), \<open>promises.length\<close> and \<open>settledCount\<close>.
\<close>

record call =
  signal_aborted :: bool
  signal_listeners :: "listener list"
  executor_calls :: nat
  innerAbortController :: "bool option"
  promises_length :: nat
  settledCount :: nat

definition fresh_signal :: signal where
  "fresh_signal = \<lparr>aborted = False, listeners = []\<rparr>"

definition innerAbortController_abort :: "'a call_scheme \<Rightarrow> 'a call_scheme" where
  "innerAbortController_abort s =
     s\<lparr>innerAbortController := map_option (\<lambda>_. True) (innerAbortController s)\<rparr>"

definition abortListener :: "'a call_scheme \<Rightarrow> 'a call_scheme" where
  "abortListener s = innerAbortController_abort s"

definition addEventListener :: "'a call_scheme \<Rightarrow> 'a call_scheme" where
  "addEventListener s = s\<lparr>signal_listeners := signal_listeners s @ [AbortInner]\<rparr>"

definition removeEventListener :: "'a call_scheme \<Rightarrow> 'a call_scheme" where
  "removeEventListener s = s\<lparr>signal_listeners := remove1 AbortInner (signal_listeners s)\<rparr>"

text \<open>
  The outer signal is aborted: the first time, the flag is set and the registered
  listeners run; of those only \<open>abortListener\<close> touches the state of the call.
\<close>

definition signal_abort :: "'a call_scheme \<Rightarrow> 'a call_scheme" where
  "signal_abort s =
     (if signal_aborted s then s
      else let s1 = s\<lparr>signal_aborted := True\<rparr>
           in if AbortInner \<in> set (signal_listeners s1) then abortListener s1 else s1)"

text \<open>\<open>a[i] = v\<close> on a JavaScript array: beyond the end the array is extended.\<close>

definition array_set :: "jsval list \<Rightarrow> nat \<Rightarrow> jsval \<Rightarrow> jsval list" where
  "array_set xs i v =
     (if i < length xs then xs[i := v]
      else xs @ replicate (i - length xs) JUndefined @ [v])"

section \<open>all.js\<close>

record all_state = call +
  rejection :: "jsval option"
  results :: "jsval list"
  all_promise :: "jsval list promise_state"

text \<open>
  The body of the promise executor, up to the point where the callbacks are attached.
  The fields of the state stand for the locals of that body; on the early return they
  keep their initial values. \<open>executor\<close> maps the inner signal to the futures; it is
  taken to return an array of promises without throwing, and only the length of the
  array is read. \<open>new Array(n)\<close> reads as \<open>undefined\<close> at every index.
\<close>

definition all :: "signal \<Rightarrow> (signal \<Rightarrow> 'p list) \<Rightarrow> all_state" where
  "all sig executor =
     (let s0 = \<lparr>signal_aborted = aborted sig,
                signal_listeners = map Foreign (listeners sig),
                executor_calls = 0, innerAbortController = None,
                promises_length = 0, settledCount = 0,
                rejection = None, results = [], all_promise = Pending\<rparr>
      in if aborted sig
         then s0\<lparr>all_promise := settle (Rejected new_AbortError) (all_promise s0)\<rparr>
         else
           let s1 = s0\<lparr>innerAbortController := Some False\<rparr>;
               promises = executor fresh_signal;
               s2 = s1\<lparr>executor_calls := executor_calls s1 + 1,
                       promises_length := length promises\<rparr>;
               s3 = addEventListener s2
           in s3\<lparr>rejection := None,
                 results := replicate (length promises) JUndefined,
                 settledCount := 0\<rparr>)"

text \<open>\<open>settled\<close>, and the two callbacks that \<open>then\<close> attaches to the future at
  index \<open>i\<close>.\<close>

definition all_settled :: "all_state \<Rightarrow> all_state" where
  "all_settled s =
     (let s1 = s\<lparr>settledCount := settledCount s + 1\<rparr>
      in if settledCount s1 = promises_length s1 then
           (let s2 = removeEventListener s1
            in case rejection s2 of
                 Some reason \<Rightarrow> s2\<lparr>all_promise := settle (Rejected reason) (all_promise s2)\<rparr>
               | None \<Rightarrow> s2\<lparr>all_promise := settle (Fulfilled (results s2)) (all_promise s2)\<rparr>)
         else s1)"

definition all_onFulfilled :: "nat \<Rightarrow> jsval \<Rightarrow> all_state \<Rightarrow> all_state" where
  "all_onFulfilled i v s = all_settled (s\<lparr>results := array_set (results s) i v\<rparr>)"

definition all_onRejected :: "jsval \<Rightarrow> all_state \<Rightarrow> all_state" where
  "all_onRejected reason s =
     (let s1 = innerAbortController_abort s;
          s2 = (case rejection s1 of
                  None \<Rightarrow> s1\<lparr>rejection := Some reason\<rparr>
                | Some recorded \<Rightarrow>
                    if \<not> isAbortError reason \<and> isAbortError recorded
                    then s1\<lparr>rejection := Some reason\<rparr> else s1)
      in all_settled s2)"

text \<open>One event, and a whole schedule after the call.\<close>

fun all_step :: "event \<Rightarrow> all_state \<Rightarrow> all_state" where
  "all_step (Fulfill i v) s = all_onFulfilled i v s"
| "all_step (Reject i reason) s = all_onRejected reason s"
| "all_step Abort s = signal_abort s"

definition all_run :: "signal \<Rightarrow> (signal \<Rightarrow> 'p list) \<Rightarrow> event list \<Rightarrow> all_state" where
  "all_run sig executor evs = fold all_step evs (all sig executor)"

section \<open>race.js\<close>

text \<open>The \<open>result\<close> variable: \<open>{status: 'fulfilled', value}\<close> or
  \<open>{status: 'rejected', reason}\<close>.\<close>

datatype settlement = StatusFulfilled jsval | StatusRejected jsval

record race_state = call +
  result :: "settlement option"
  race_promise :: "jsval promise_state"

definition race :: "signal \<Rightarrow> (signal \<Rightarrow> 'p list) \<Rightarrow> race_state" where
  "race sig executor =
     (let s0 = \<lparr>signal_aborted = aborted sig,
                signal_listeners = map Foreign (listeners sig),
                executor_calls = 0, innerAbortController = None,
                promises_length = 0, settledCount = 0,
                result = None, race_promise = Pending\<rparr>
      in if aborted sig
         then s0\<lparr>race_promise := settle (Rejected new_AbortError) (race_promise s0)\<rparr>
         else
           let s1 = s0\<lparr>innerAbortController := Some False\<rparr>;
               promises = executor fresh_signal;
               s2 = s1\<lparr>executor_calls := executor_calls s1 + 1,
                       promises_length := length promises\<rparr>;
               s3 = addEventListener s2
           in s3\<lparr>settledCount := 0, result := None\<rparr>)"

text \<open>\<open>settled(result)\<close>, and the two callbacks attached to every future.\<close>

definition race_settled :: "settlement \<Rightarrow> race_state \<Rightarrow> race_state" where
  "race_settled res s =
     (let s1 = innerAbortController_abort s;
          s2 = s1\<lparr>settledCount := settledCount s1 + 1\<rparr>
      in if settledCount s2 = promises_length s2 then
           (let s3 = removeEventListener s2
            in case res of
                 StatusFulfilled v \<Rightarrow>
                   s3\<lparr>race_promise := settle (Fulfilled v) (race_promise s3)\<rparr>
               | StatusRejected reason \<Rightarrow>
                   s3\<lparr>race_promise := settle (Rejected reason) (race_promise s3)\<rparr>)
         else s2)"

definition race_onFulfilled :: "jsval \<Rightarrow> race_state \<Rightarrow> race_state" where
  "race_onFulfilled v s =
     (let res = (case result s of None \<Rightarrow> StatusFulfilled v | Some r \<Rightarrow> r)
      in race_settled res (s\<lparr>result := Some res\<rparr>))"

definition race_onRejected :: "jsval \<Rightarrow> race_state \<Rightarrow> race_state" where
  "race_onRejected reason s =
     (let res = (case result s of
                   None \<Rightarrow> StatusRejected reason
                 | Some r \<Rightarrow>
                     if \<not> isAbortError reason \<and>
                        (case r of StatusFulfilled v \<Rightarrow> True
                                 | StatusRejected recorded \<Rightarrow> isAbortError recorded)
                     then StatusRejected reason else r)
      in race_settled res (s\<lparr>result := Some res\<rparr>))"

fun race_step :: "event \<Rightarrow> race_state \<Rightarrow> race_state" where
  "race_step (Fulfill i v) s = race_onFulfilled v s"
| "race_step (Reject i reason) s = race_onRejected reason s"
| "race_step Abort s = signal_abort s"

definition race_run :: "signal \<Rightarrow> (signal \<Rightarrow> 'p list) \<Rightarrow> event list \<Rightarrow> race_state" where
  "race_run sig executor evs = fold race_step evs (race sig executor)"

section \<open>What a schedule records\<close>

text \<open>
  The update of \<open>rejection\<close> in the rejection callback of \<open>all\<close>, as a function of
  the recorded reason and the new one.
\<close>

definition record_rejection :: "jsval option \<Rightarrow> jsval \<Rightarrow> jsval option" where
  "record_rejection cur reason =
     (case cur of
        None \<Rightarrow> Some reason
      | Some recorded \<Rightarrow>
          if \<not> isAbortError reason \<and> isAbortError recorded then Some reason
          else Some recorded)"

text \<open>
  The first genuine reason of a list of rejection reasons if it has one, else its first
  reason.
\<close>

definition first_failure :: "jsval list \<Rightarrow> jsval option" where
  "first_failure rs =
     (case filter (\<lambda>r. \<not> isAbortError r) rs of
        g # _ \<Rightarrow> Some g
      | [] \<Rightarrow> (case rs of [] \<Rightarrow> None | r # _ \<Rightarrow> Some r))"

text \<open>The settlements of a schedule, in order, as \<open>race\<close> would record them.\<close>

fun settlement_of :: "event \<Rightarrow> settlement option" where
  "settlement_of (Fulfill i v) = Some (StatusFulfilled v)"
| "settlement_of (Reject i r) = Some (StatusRejected r)"
| "settlement_of Abort = None"

definition settlements :: "event list \<Rightarrow> settlement list" where
  "settlements evs = List.map_filter settlement_of evs"

fun genuine_rejection :: "settlement \<Rightarrow> bool" where
  "genuine_rejection (StatusRejected r) = (\<not> isAbortError r)"
| "genuine_rejection (StatusFulfilled v) = False"

fun cancellation_rejection :: "settlement \<Rightarrow> bool" where
  "cancellation_rejection (StatusRejected r) = isAbortError r"
| "cancellation_rejection (StatusFulfilled v) = False"

fun fulfillment :: "settlement \<Rightarrow> bool" where
  "fulfillment (StatusRejected r) = False"
| "fulfillment (StatusFulfilled v) = True"

text \<open>
  The update of \<open>result\<close> in the two callbacks of \<open>race\<close>, as a function of the
  recorded settlement and the new one.
\<close>

definition record_result :: "settlement option \<Rightarrow> settlement \<Rightarrow> settlement" where
  "record_result cur x =
     (case cur of
        None \<Rightarrow> x
      | Some r \<Rightarrow> if genuine_rejection x \<and> \<not> genuine_rejection r then x else r)"

text \<open>
  The settlement \<open>race\<close> ends with: the first genuine rejection if there is one, else
  the first settlement.
\<close>

definition race_winner :: "settlement list \<Rightarrow> settlement option" where
  "race_winner ss =
     (case filter genuine_rejection ss of
        g # _ \<Rightarrow> Some g
      | [] \<Rightarrow> (case ss of [] \<Rightarrow> None | x # _ \<Rightarrow> Some x))"

text \<open>
  The priority rule in the words of the specification, for comparison with
  \<open>race_winner\<close>: a genuine rejection wins; absent any, the first fulfilment wins;
  absent both, the first cancellation rejection wins.
\<close>

definition race_priority_rule :: "settlement list \<Rightarrow> settlement option" where
  "race_priority_rule ss =
     (case filter genuine_rejection ss of
        g # _ \<Rightarrow> Some g
      | [] \<Rightarrow>
         (case filter fulfillment ss of
            f # _ \<Rightarrow> Some f
          | [] \<Rightarrow>
             (case filter cancellation_rejection ss of
                c # _ \<Rightarrow> Some c
              | [] \<Rightarrow> None)))"

text \<open>The state of the returned promise that a recorded settlement stands for.\<close>

fun promise_of :: "settlement option \<Rightarrow> jsval promise_state" where
  "promise_of None = Pending"
| "promise_of (Some (StatusFulfilled v)) = Fulfilled v"
| "promise_of (Some (StatusRejected r)) = Rejected r"

section \<open>Example inputs\<close>

text \<open>
  Two outer signals (each with one listener of other code), executors that return no,
  two and three futures, and an ordinary error.
\<close>

definition pending_signal :: signal where
  "pending_signal = \<lparr>aborted = False, listeners = [5]\<rparr>"

definition aborted_signal :: signal where
  "aborted_signal = \<lparr>aborted = True, listeners = [5]\<rparr>"

definition no_futures :: "signal \<Rightarrow> unit list" where
  "no_futures innerSignal = []"

definition two_futures :: "signal \<Rightarrow> unit list" where
  "two_futures innerSignal = [(), ()]"

definition three_futures :: "signal \<Rightarrow> unit list" where
  "three_futures innerSignal = [(), (), ()]"

definition boom :: jsval where
  "boom = JObject 2 [(''name'', JString ''Error''), (''message'', JString ''boom'')]"

section \<open>Properties of AbortError.js\<close>

lemma typeof_object_iff:
  "typeof v = ''object'' \<longleftrightarrow> v = JNull \<or> (\<exists>p props. v = JObject p props)"
  by (cases v) simp_all

lemma isAbortError_JObject:
  "isAbortError (JObject p props) \<longleftrightarrow> map_of props ''name'' = Some (JString ''AbortError'')"
  by (simp add: isAbortError_def split: option.splits)

lemma isAbortError_new_AbortError: "isAbortError new_AbortError"
  by (simp add: new_AbortError_def isAbortError_JObject)

lemma isAbortError_name_read_never_throws:
  "typeof v = ''object'' \<Longrightarrow> v \<noteq> JNull \<Longrightarrow> get_name v \<noteq> None"
  by (cases v) simp_all

text \<open>
  C8. \<open>isAbortError\<close> decides by shape alone: it is true exactly of the non-null
  objects whose \<open>name\<close> is the string \<open>AbortError\<close>, whatever their prototype
  identity, so the same properties under another identity are classified the same, and
  the module's own \<open>new AbortError()\<close> is recognised.
\<close>

theorem isAbortError_by_shape:
  "(isAbortError v \<longleftrightarrow>
      (\<exists>p props. v = JObject p props \<and> map_of props ''name'' = Some (JString ''AbortError'')))
   \<and> isAbortError (JObject p1 props1) = isAbortError (JObject p2 props1)
   \<and> isAbortError new_AbortError"
proof -
  have "isAbortError v \<longleftrightarrow>
      (\<exists>p props. v = JObject p props \<and> map_of props ''name'' = Some (JString ''AbortError''))"
    by (cases v) (simp_all add: isAbortError_def split: option.splits)
  then show ?thesis
    by (simp add: isAbortError_JObject isAbortError_new_AbortError)
qed

text \<open>
  C9. \<open>throwIfAborted\<close> throws exactly when the signal is aborted, what it throws is a
  cancellation error, and on a signal that is not aborted it returns normally.
\<close>

theorem throwIfAborted_iff_aborted:
  "((\<exists>e. throwIfAborted sig = Inl e \<and> isAbortError e) \<longleftrightarrow> aborted sig)
   \<and> (throwIfAborted sig = Inr () \<longleftrightarrow> \<not> aborted sig)"
  by (simp add: throwIfAborted_def isAbortError_new_AbortError)

theorem throwIfAborted_iff_aborted_witness:
  "throwIfAborted \<lparr>aborted = True, listeners = []\<rparr> = Inl new_AbortError
   \<and> throwIfAborted \<lparr>aborted = False, listeners = [7]\<rparr> = Inr ()"
  using throwIfAborted_iff_aborted [of "\<lparr>aborted = True, listeners = []\<rparr>"]
    throwIfAborted_iff_aborted [of "\<lparr>aborted = False, listeners = [7]\<rparr>"]
  by (simp add: throwIfAborted_def)

text \<open>
  C10. \<open>catchAbortError e\<close> returns normally exactly when \<open>isAbortError e\<close>, and
  otherwise throws \<open>e\<close> itself; \<open>rethrowAbortError e\<close> throws \<open>e\<close> exactly when
  \<open>isAbortError e\<close>, and otherwise returns normally.
\<close>

theorem catch_rethrow_AbortError:
  "(catchAbortError e = Inr () \<longleftrightarrow> isAbortError e)
   \<and> (catchAbortError e = Inl e \<longleftrightarrow> \<not> isAbortError e)
   \<and> (rethrowAbortError e = Inl e \<longleftrightarrow> isAbortError e)
   \<and> (rethrowAbortError e = Inr () \<longleftrightarrow> \<not> isAbortError e)"
  by (simp add: catchAbortError_def rethrowAbortError_def)

theorem catch_rethrow_AbortError_witness:
  "catchAbortError new_AbortError = Inr ()
   \<and> catchAbortError (JString ''boom'') = Inl (JString ''boom'')
   \<and> rethrowAbortError new_AbortError = Inl new_AbortError
   \<and> rethrowAbortError (JString ''boom'') = Inr ()"
proof -
  have a: "isAbortError new_AbortError"
    by (rule isAbortError_new_AbortError)
  have b: "\<not> isAbortError (JString ''boom'')"
    by (simp add: isAbortError_def)
  show ?thesis
    using catch_rethrow_AbortError [of new_AbortError]
      catch_rethrow_AbortError [of "JString ''boom''"] a b
    by simp
qed

section \<open>Properties of the combinators\<close>

lemmas all_step_defs = all_onFulfilled_def all_onRejected_def all_settled_def
  signal_abort_def abortListener_def innerAbortController_abort_def removeEventListener_def
  Let_def

lemma length_array_set_in: "i < length xs \<Longrightarrow> length (array_set xs i v) = length xs"
  by (simp add: array_set_def)

lemma nth_array_set: "i < length xs \<Longrightarrow> array_set xs i v ! j = (if j = i then v else xs ! j)"
  by (simp add: array_set_def)

lemma all_step_promises_length: "promises_length (all_step e s) = promises_length s"
  by (cases e)
    (simp_all add: all_step_defs split: option.splits)

lemma all_step_settledCount:
  "settledCount (all_step e s) = settledCount s + (case settles e of None \<Rightarrow> 0 | Some i \<Rightarrow> 1)"
  by (cases e)
    (simp_all add: all_step_defs split: option.splits)

lemma all_step_rejection:
  "rejection (all_step e s) =
     (case reason_of e of None \<Rightarrow> rejection s | Some r \<Rightarrow> record_rejection (rejection s) r)"
  by (cases e)
    (simp_all add: all_step_defs record_rejection_def split: option.splits)

lemma all_step_results:
  "results (all_onFulfilled i v s) = array_set (results s) i v"
  "results (all_onRejected r s) = results s"
  by (simp_all add: all_step_defs split: option.splits)

lemma all_step_promise:
  "all_promise (all_step e s) =
     (if settles e \<noteq> None \<and> settledCount s + 1 = promises_length s
      then settle (case rejection (all_step e s) of
                     Some r \<Rightarrow> Rejected r
                   | None \<Rightarrow> Fulfilled (results (all_step e s))) (all_promise s)
      else all_promise s)"
  by (cases e)
    (simp_all add: all_step_defs split: option.splits)

lemma all_step_listeners:
  "signal_listeners (all_step e s) =
     (if settles e \<noteq> None \<and> settledCount s + 1 = promises_length s
      then remove1 AbortInner (signal_listeners s) else signal_listeners s)"
  by (cases e)
    (simp_all add: all_step_defs split: option.splits)

lemma first_failure_snoc:
  "first_failure (rs @ [r]) = record_rejection (first_failure rs) r"
proof (cases "filter (\<lambda>r. \<not> isAbortError r) rs")
  case Nil
  then have all_abort: "\<forall>x \<in> set rs. isAbortError x"
    by (simp add: filter_empty_conv)
  show ?thesis
  proof (cases rs)
    case Nil
    then show ?thesis
      by (simp add: first_failure_def record_rejection_def)
  next
    case (Cons a as)
    with all_abort have "isAbortError a" by simp
    with Cons \<open>filter (\<lambda>r. \<not> isAbortError r) rs = []\<close> show ?thesis
      by (simp add: first_failure_def record_rejection_def)
  qed
next
  case (Cons g gs)
  then have "g \<in> set (filter (\<lambda>r. \<not> isAbortError r) rs)" by simp
  then have "\<not> isAbortError g" by simp
  with Cons show ?thesis
    by (simp add: first_failure_def record_rejection_def)
qed

lemma settled_futures_snoc:
  "settled_futures (evs @ [e]) =
     settled_futures evs @ (case settles e of None \<Rightarrow> [] | Some i \<Rightarrow> [i])"
  by (simp add: settled_futures_def List.map_filter_def split: option.splits)

lemma rejection_reasons_snoc:
  "rejection_reasons (evs @ [e]) =
     rejection_reasons evs @ (case reason_of e of None \<Rightarrow> [] | Some r \<Rightarrow> [r])"
  by (simp add: rejection_reasons_def List.map_filter_def split: option.splits)

lemma wf_schedule_snoc: "wf_schedule n (evs @ [e]) \<Longrightarrow> wf_schedule n evs"
  by (simp add: wf_schedule_def settled_futures_snoc split: option.splits)

lemma wf_schedule_length:
  assumes "wf_schedule n evs"
  shows "length (settled_futures evs) \<le> n"
proof -
  from assms have d: "distinct (settled_futures evs)"
    and b: "set (settled_futures evs) \<subseteq> {..<n}"
    by (auto simp: wf_schedule_def list_all_iff)
  from d have "length (settled_futures evs) = card (set (settled_futures evs))"
    by (simp add: distinct_card)
  also from b have "\<dots> \<le> card {..<n}"
    by (intro card_mono) simp_all
  finally show ?thesis by simp
qed

lemma wf_schedule_complete:
  assumes "wf_schedule n evs" and "length (settled_futures evs) = n"
  shows "set (settled_futures evs) = {..<n}"
proof -
  from assms(1) have d: "distinct (settled_futures evs)"
    and b: "set (settled_futures evs) \<subseteq> {..<n}"
    by (auto simp: wf_schedule_def list_all_iff)
  from d assms(2) have "card (set (settled_futures evs)) = card {..<n}"
    by (simp add: distinct_card)
  with b show ?thesis
    by (intro card_subset_eq) simp_all
qed

lemma signal_abort_all_state:
  "all_promise (signal_abort s) = all_promise s"
  "rejection (signal_abort s) = rejection s"
  "results (signal_abort s) = results s"
  by (simp_all add: signal_abort_def abortListener_def innerAbortController_abort_def Let_def)

lemma all_run_snoc: "all_run sig ex (evs @ [e]) = all_step e (all_run sig ex evs)"
  by (simp add: all_run_def)

lemma all_run_Nil: "all_run sig ex [] = all sig ex"
  by (simp add: all_run_def)

lemma all_run_promises_length:
  "\<not> aborted sig \<Longrightarrow> promises_length (all_run sig ex evs) = length (ex fresh_signal)"
  by (induction evs rule: rev_induct)
    (simp_all add: all_run_snoc all_run_Nil all_step_promises_length all_def Let_def
      addEventListener_def)

lemma all_run_settledCount:
  "settledCount (all_run sig ex evs) = length (settled_futures evs)"
proof (induction evs rule: rev_induct)
  case Nil
  show ?case
    by (simp add: all_run_Nil all_def Let_def addEventListener_def settled_futures_def
        List.map_filter_def)
next
  case (snoc e evs)
  then show ?case
    by (simp add: all_run_snoc all_step_settledCount settled_futures_snoc split: option.splits)
qed

lemma all_run_rejection:
  "rejection (all_run sig ex evs) = first_failure (rejection_reasons evs)"
proof (induction evs rule: rev_induct)
  case Nil
  show ?case
    by (simp add: all_run_Nil all_def Let_def addEventListener_def rejection_reasons_def
        List.map_filter_def first_failure_def)
next
  case (snoc e evs)
  then show ?case
    by (simp add: all_run_snoc all_step_rejection rejection_reasons_snoc first_failure_snoc
        split: option.splits)
qed

lemma all_run_promise:
  assumes "\<not> aborted sig" and "ex fresh_signal \<noteq> []"
    and "wf_schedule (length (ex fresh_signal)) evs"
  shows "all_promise (all_run sig ex evs) =
     (if length (settled_futures evs) < length (ex fresh_signal) then Pending
      else case rejection (all_run sig ex evs) of
             Some r \<Rightarrow> Rejected r
           | None \<Rightarrow> Fulfilled (results (all_run sig ex evs)))"
  using assms(3)
proof (induction evs rule: rev_induct)
  case Nil
  with assms(1,2) show ?case
    by (simp add: all_run_Nil all_def Let_def addEventListener_def settled_futures_def
        List.map_filter_def)
next
  case (snoc e evs)
  from snoc.prems have wf: "wf_schedule (length (ex fresh_signal)) evs"
    by (rule wf_schedule_snoc)
  note IH = snoc.IH [OF wf]
  show ?case
  proof (cases "settles e")
    case None
    then have "e = Abort"
      by (cases e) simp_all
    with IH show ?thesis
      by (simp add: all_run_snoc signal_abort_all_state settled_futures_snoc
          cong: option.case_cong)
  next
    case (Some i)
    from wf_schedule_length [OF snoc.prems] Some
    have lt: "length (settled_futures evs) < length (ex fresh_signal)"
      by (simp add: settled_futures_snoc)
    with IH have pend: "all_promise (all_run sig ex evs) = Pending" by simp
    from Some pend lt show ?thesis
      by (simp add: all_run_snoc all_step_promise [of e] all_run_settledCount
          all_run_promises_length [OF assms(1)] settled_futures_snoc settle_def
          cong: option.case_cong)
  qed
qed

lemma all_run_listeners:
  assumes "\<not> aborted sig" and "ex fresh_signal \<noteq> []"
    and "wf_schedule (length (ex fresh_signal)) evs"
  shows "signal_listeners (all_run sig ex evs) =
     (if length (settled_futures evs) < length (ex fresh_signal)
      then map Foreign (listeners sig) @ [AbortInner]
      else map Foreign (listeners sig))"
  using assms(3)
proof (induction evs rule: rev_induct)
  case Nil
  with assms(1,2) show ?case
    by (simp add: all_run_Nil all_def Let_def addEventListener_def settled_futures_def
        List.map_filter_def)
next
  case (snoc e evs)
  from snoc.prems have wf: "wf_schedule (length (ex fresh_signal)) evs"
    by (rule wf_schedule_snoc)
  note IH = snoc.IH [OF wf]
  have rm: "remove1 AbortInner (map Foreign (listeners sig) @ [AbortInner]) = map Foreign (listeners sig)"
    by (induction "listeners sig") (auto simp: remove1_append)
  show ?case
  proof (cases "settles e")
    case None
    with IH show ?thesis
      by (simp add: all_run_snoc all_step_listeners settled_futures_snoc)
  next
    case (Some i)
    from wf_schedule_length [OF snoc.prems] Some
    have lt: "length (settled_futures evs) < length (ex fresh_signal)"
      by (simp add: settled_futures_snoc)
    with IH have cur: "signal_listeners (all_run sig ex evs) = map Foreign (listeners sig) @ [AbortInner]"
      by simp
    from Some cur lt rm show ?thesis
      by (simp add: all_run_snoc all_step_listeners [of e] all_run_settledCount
          all_run_promises_length [OF assms(1)] settled_futures_snoc)
  qed
qed

lemma set_map_filter_iff: "y \<in> set (List.map_filter f xs) \<longleftrightarrow> (\<exists>x \<in> set xs. f x = Some y)"
  by (induction xs) (auto simp: List.map_filter_simps split: option.splits)

lemma Fulfill_settled: "Fulfill i v \<in> set evs \<Longrightarrow> i \<in> set (settled_futures evs)"
  by (force simp: settled_futures_def set_map_filter_iff)

lemma settled_cases:
  "i \<in> set (settled_futures evs) \<Longrightarrow> (\<exists>v. Fulfill i v \<in> set evs) \<or> (\<exists>r. Reject i r \<in> set evs)"
proof -
  assume "i \<in> set (settled_futures evs)"
  then obtain e where e: "e \<in> set evs" "settles e = Some i"
    by (auto simp: settled_futures_def set_map_filter_iff)
  show ?thesis
  proof (cases e)
    case (Fulfill j v)
    with e show ?thesis by auto
  next
    case (Reject j r)
    with e show ?thesis by auto
  next
    case Abort
    with e show ?thesis by simp
  qed
qed

lemma Reject_reason: "Reject i r \<in> set evs \<Longrightarrow> r \<in> set (rejection_reasons evs)"
  by (force simp: rejection_reasons_def set_map_filter_iff)

lemma first_failure_None: "first_failure rs = None \<longleftrightarrow> rs = []"
  by (auto simp: first_failure_def split: list.splits)

lemma all_run_results:
  assumes "\<not> aborted sig"
    and "wf_schedule (length (ex fresh_signal)) evs"
  shows "length (results (all_run sig ex evs)) = length (ex fresh_signal) \<and>
     (\<forall>i v. Fulfill i v \<in> set evs \<longrightarrow> results (all_run sig ex evs) ! i = v)"
  using assms(2)
proof (induction evs rule: rev_induct)
  case Nil
  with assms(1) show ?case
    by (simp add: all_run_Nil all_def Let_def addEventListener_def)
next
  case (snoc e evs)
  from snoc.prems have wf: "wf_schedule (length (ex fresh_signal)) evs"
    by (rule wf_schedule_snoc)
  note IH = snoc.IH [OF wf]
  show ?case
  proof (cases e)
    case (Fulfill j w)
    with snoc.prems have j: "j < length (ex fresh_signal)" "j \<notin> set (settled_futures evs)"
      by (simp_all add: wf_schedule_def settled_futures_snoc)
    have other: "i \<noteq> j" if "Fulfill i v \<in> set evs" for i v
      using Fulfill_settled [OF that] j(2) by auto
    from Fulfill IH j(1) other show ?thesis
      by (simp add: all_run_snoc all_step_results length_array_set_in nth_array_set)
  next
    case (Reject j r)
    with IH show ?thesis
      by (simp add: all_run_snoc all_step_results)
  next
    case Abort
    with IH show ?thesis
      by (simp add: all_run_snoc signal_abort_all_state)
  qed
qed

lemmas race_step_defs = race_onFulfilled_def race_onRejected_def race_settled_def
  signal_abort_def abortListener_def innerAbortController_abort_def removeEventListener_def Let_def

lemma race_step_promises_length: "promises_length (race_step e s) = promises_length s"
  by (cases e) (simp_all add: race_step_defs split: option.splits settlement.splits)

lemma race_step_settledCount:
  "settledCount (race_step e s) = settledCount s + (case settles e of None \<Rightarrow> 0 | Some i \<Rightarrow> 1)"
  by (cases e) (simp_all add: race_step_defs split: option.splits settlement.splits)

lemma race_step_result:
  "result (race_step e s) =
     (case settlement_of e of None \<Rightarrow> result s | Some x \<Rightarrow> Some (record_result (result s) x))"
  by (cases e) (auto simp add: race_step_defs record_result_def split: option.splits settlement.splits)

lemma race_step_promise:
  "race_promise (race_step e s) =
     (if settles e \<noteq> None \<and> settledCount s + 1 = promises_length s
      then settle (promise_of (result (race_step e s))) (race_promise s)
      else race_promise s)"
  by (cases e) (auto simp add: race_step_defs split: option.splits settlement.splits)

lemma race_step_listeners:
  "signal_listeners (race_step e s) =
     (if settles e \<noteq> None \<and> settledCount s + 1 = promises_length s
      then remove1 AbortInner (signal_listeners s) else signal_listeners s)"
  by (cases e) (auto simp add: race_step_defs split: option.splits settlement.splits)

lemma signal_abort_race_state:
  "race_promise (signal_abort s) = race_promise s"
  "result (signal_abort s) = result s"
  by (simp_all add: signal_abort_def abortListener_def innerAbortController_abort_def Let_def)

lemma settlements_snoc:
  "settlements (evs @ [e]) =
     settlements evs @ (case settlement_of e of None \<Rightarrow> [] | Some x \<Rightarrow> [x])"
  by (simp add: settlements_def List.map_filter_def split: option.splits)

lemma race_winner_snoc:
  "race_winner (ss @ [x]) = Some (record_result (race_winner ss) x)"
proof (cases "filter genuine_rejection ss")
  case Nil
  then have none: "\<forall>y \<in> set ss. \<not> genuine_rejection y"
    by (simp add: filter_empty_conv)
  show ?thesis
  proof (cases ss)
    case Nil
    then show ?thesis
      by (simp add: race_winner_def record_result_def)
  next
    case (Cons a as)
    with none have "\<not> genuine_rejection a" by simp
    with Cons \<open>filter genuine_rejection ss = []\<close> show ?thesis
      by (simp add: race_winner_def record_result_def)
  qed
next
  case (Cons g gs)
  then have "g \<in> set (filter genuine_rejection ss)" by simp
  then have "genuine_rejection g" by simp
  with Cons show ?thesis
    by (simp add: race_winner_def record_result_def)
qed

lemma race_run_snoc: "race_run sig ex (evs @ [e]) = race_step e (race_run sig ex evs)"
  by (simp add: race_run_def)

lemma race_run_Nil: "race_run sig ex [] = race sig ex"
  by (simp add: race_run_def)

lemma race_run_promises_length:
  "\<not> aborted sig \<Longrightarrow> promises_length (race_run sig ex evs) = length (ex fresh_signal)"
  by (induction evs rule: rev_induct)
    (simp_all add: race_run_snoc race_run_Nil race_step_promises_length race_def Let_def
      addEventListener_def)

lemma race_run_settledCount:
  "settledCount (race_run sig ex evs) = length (settled_futures evs)"
proof (induction evs rule: rev_induct)
  case Nil
  show ?case
    by (simp add: race_run_Nil race_def Let_def addEventListener_def settled_futures_def
        List.map_filter_def)
next
  case (snoc e evs)
  then show ?case
    by (simp add: race_run_snoc race_step_settledCount settled_futures_snoc split: option.splits)
qed

lemma race_run_result:
  "result (race_run sig ex evs) = race_winner (settlements evs)"
proof (induction evs rule: rev_induct)
  case Nil
  show ?case
    by (simp add: race_run_Nil race_def Let_def addEventListener_def settlements_def
        List.map_filter_def race_winner_def)
next
  case (snoc e evs)
  then show ?case
    by (simp add: race_run_snoc race_step_result settlements_snoc race_winner_snoc
        split: option.splits)
qed

lemma race_run_promise:
  assumes "\<not> aborted sig" and "ex fresh_signal \<noteq> []"
    and "wf_schedule (length (ex fresh_signal)) evs"
  shows "race_promise (race_run sig ex evs) =
     (if length (settled_futures evs) < length (ex fresh_signal) then Pending
      else promise_of (result (race_run sig ex evs)))"
  using assms(3)
proof (induction evs rule: rev_induct)
  case Nil
  with assms(1,2) show ?case
    by (simp add: race_run_Nil race_def Let_def addEventListener_def settled_futures_def
        List.map_filter_def)
next
  case (snoc e evs)
  from snoc.prems have wf: "wf_schedule (length (ex fresh_signal)) evs"
    by (rule wf_schedule_snoc)
  note IH = snoc.IH [OF wf]
  show ?case
  proof (cases "settles e")
    case None
    then have "e = Abort"
      by (cases e) simp_all
    with IH show ?thesis
      by (simp add: race_run_snoc signal_abort_race_state settled_futures_snoc)
  next
    case (Some i)
    from wf_schedule_length [OF snoc.prems] Some
    have lt: "length (settled_futures evs) < length (ex fresh_signal)"
      by (simp add: settled_futures_snoc)
    with IH have pend: "race_promise (race_run sig ex evs) = Pending" by simp
    from Some pend lt show ?thesis
      by (simp add: race_run_snoc race_step_promise [of e] race_run_settledCount
          race_run_promises_length [OF assms(1)] settled_futures_snoc settle_def)
  qed
qed

lemma race_run_listeners:
  assumes "\<not> aborted sig" and "ex fresh_signal \<noteq> []"
    and "wf_schedule (length (ex fresh_signal)) evs"
  shows "signal_listeners (race_run sig ex evs) =
     (if length (settled_futures evs) < length (ex fresh_signal)
      then map Foreign (listeners sig) @ [AbortInner]
      else map Foreign (listeners sig))"
  using assms(3)
proof (induction evs rule: rev_induct)
  case Nil
  with assms(1,2) show ?case
    by (simp add: race_run_Nil race_def Let_def addEventListener_def settled_futures_def
        List.map_filter_def)
next
  case (snoc e evs)
  from snoc.prems have wf: "wf_schedule (length (ex fresh_signal)) evs"
    by (rule wf_schedule_snoc)
  note IH = snoc.IH [OF wf]
  have rm: "remove1 AbortInner (map Foreign (listeners sig) @ [AbortInner]) = map Foreign (listeners sig)"
    by (induction "listeners sig") (auto simp: remove1_append)
  show ?case
  proof (cases "settles e")
    case None
    with IH show ?thesis
      by (simp add: race_run_snoc race_step_listeners settled_futures_snoc)
  next
    case (Some i)
    from wf_schedule_length [OF snoc.prems] Some
    have lt: "length (settled_futures evs) < length (ex fresh_signal)"
      by (simp add: settled_futures_snoc)
    with IH have cur: "signal_listeners (race_run sig ex evs) = map Foreign (listeners sig) @ [AbortInner]"
      by simp
    from Some cur lt rm show ?thesis
      by (simp add: race_run_snoc race_step_listeners [of e] race_run_settledCount
          race_run_promises_length [OF assms(1)] settled_futures_snoc)
  qed
qed

lemma all_run_empty_pending:
  assumes "\<not> aborted sig" and "ex fresh_signal = []"
  shows "all_promise (all_run sig ex evs) = Pending"
proof (induction evs rule: rev_induct)
  case Nil
  from assms show ?case
    by (simp add: all_run_Nil all_def Let_def addEventListener_def)
next
  case (snoc e evs)
  with assms show ?case
    by (simp add: all_run_snoc all_step_promise [of e] all_run_promises_length)
qed

lemma reasons_settled:
  assumes "rejection_reasons evs \<noteq> []"
  shows "settled_futures evs \<noteq> []"
proof -
  from assms obtain r where "r \<in> set (rejection_reasons evs)"
    by (cases "rejection_reasons evs") auto
  then obtain e where e: "e \<in> set evs" "reason_of e = Some r"
    by (auto simp: rejection_reasons_def set_map_filter_iff)
  from e(2) obtain i where "settles e = Some i"
    by (cases e) simp_all
  with e(1) have "i \<in> set (settled_futures evs)"
    by (auto simp: settled_futures_def set_map_filter_iff)
  then show ?thesis by auto
qed

lemma first_failure_genuine:
  "filter (\<lambda>r. \<not> isAbortError r) rs \<noteq> [] \<Longrightarrow>
   first_failure rs = Some (hd (filter (\<lambda>r. \<not> isAbortError r) rs))"
  by (cases "filter (\<lambda>r. \<not> isAbortError r) rs") (simp_all add: first_failure_def)

lemma length_settlements: "length (settlements evs) = length (settled_futures evs)"
proof (induction evs rule: rev_induct)
  case Nil
  show ?case by (simp add: settlements_def settled_futures_def List.map_filter_simps)
next
  case (snoc e evs)
  then show ?case
    by (cases e) (simp_all add: settlements_snoc settled_futures_snoc)
qed

lemma race_winner_nonempty:
  "ss \<noteq> [] \<Longrightarrow>
   race_winner ss =
     (if filter genuine_rejection ss \<noteq> [] then Some (hd (filter genuine_rejection ss))
      else Some (hd ss))"
  by (cases ss; cases "filter genuine_rejection ss") (simp_all add: race_winner_def)

section \<open>The combinators: claims\<close>

text \<open>
  C1. In \<open>all\<close>, the rejection callback replaces the recorded rejection by the new
  reason only if none is recorded yet, or the new reason is not a cancellation error
  while the recorded one is. Hence, whenever all futures have settled and at least one
  rejected with a genuine error (the others rejecting with \<open>AbortError\<close> or not), the
  aggregate rejects with the first genuine reason in settlement order, which is not a
  cancellation error.
\<close>

theorem all_genuine_rejection_wins:
  "rejection (all_onRejected reason s) =
     (if rejection s = None \<or> (\<not> isAbortError reason \<and> isAbortError (the (rejection s)))
      then Some reason else rejection s)
   \<and> (\<not> aborted sig \<and> wf_schedule (length (executor fresh_signal)) evs
        \<and> length (settled_futures evs) = length (executor fresh_signal)
        \<and> genuine_reasons evs \<noteq> [] \<longrightarrow>
      all_promise (all_run sig executor evs) = Rejected (hd (genuine_reasons evs))
        \<and> \<not> isAbortError (hd (genuine_reasons evs)))"
proof (intro conjI impI)
  show "rejection (all_onRejected reason s) =
     (if rejection s = None \<or> (\<not> isAbortError reason \<and> isAbortError (the (rejection s)))
      then Some reason else rejection s)"
    using all_step_rejection [of "Reject 0 reason" s]
    by (auto simp: record_rejection_def split: option.splits)
next
  assume h: "\<not> aborted sig \<and> wf_schedule (length (executor fresh_signal)) evs
        \<and> length (settled_futures evs) = length (executor fresh_signal)
        \<and> genuine_reasons evs \<noteq> []"
  then have g: "filter (\<lambda>r. \<not> isAbortError r) (rejection_reasons evs) \<noteq> []"
    by (simp add: genuine_reasons_def)
  then have "rejection_reasons evs \<noteq> []" by auto
  then have "settled_futures evs \<noteq> []" by (rule reasons_settled)
  with h have ne: "executor fresh_signal \<noteq> []" by auto
  from h ne have "all_promise (all_run sig executor evs) =
      (case rejection (all_run sig executor evs) of
         Some r \<Rightarrow> Rejected r
       | None \<Rightarrow> Fulfilled (results (all_run sig executor evs)))"
    by (simp add: all_run_promise)
  with first_failure_genuine [OF g]
  show "all_promise (all_run sig executor evs) = Rejected (hd (genuine_reasons evs))"
    by (simp add: all_run_rejection genuine_reasons_def)
next
  assume "\<not> aborted sig \<and> wf_schedule (length (executor fresh_signal)) evs
        \<and> length (settled_futures evs) = length (executor fresh_signal)
        \<and> genuine_reasons evs \<noteq> []"
  then have "hd (genuine_reasons evs) \<in> set (genuine_reasons evs)" by simp
  then show "\<not> isAbortError (hd (genuine_reasons evs))"
    by (simp add: genuine_reasons_def)
qed

theorem all_genuine_rejection_wins_witness:
  "all_promise (all_run pending_signal three_futures
       [Reject 1 boom, Reject 0 new_AbortError, Reject 2 new_AbortError]) = Rejected boom
   \<and> all_promise (all_run pending_signal three_futures
       [Abort, Reject 0 new_AbortError, Reject 1 boom, Reject 2 new_AbortError]) = Rejected boom"
proof -
  let ?a = "[Reject 1 boom, Reject 0 new_AbortError, Reject 2 new_AbortError]"
  let ?b = "[Abort, Reject 0 new_AbortError, Reject 1 boom, Reject 2 new_AbortError]"
  have p: "\<not> aborted pending_signal" by (simp add: pending_signal_def)
  have n: "length (three_futures fresh_signal) = 3" by (simp add: three_futures_def)
  have wa: "wf_schedule 3 ?a" and wb: "wf_schedule 3 ?b" by code_simp+
  have ca: "length (settled_futures ?a) = 3" and cb: "length (settled_futures ?b) = 3" by code_simp+
  have ga: "genuine_reasons ?a = [boom]" and gb: "genuine_reasons ?b = [boom]" by code_simp+
  show ?thesis
    using all_genuine_rejection_wins [of _ _ pending_signal three_futures ?a]
      all_genuine_rejection_wins [of _ _ pending_signal three_futures ?b]
      p n wa wb ca cb ga gb
    by simp
qed

text \<open>
  C2, as stated, fails. \<open>race_priority_rule\<close> is the claim's rule: a genuine rejection
  first, else the first fulfilment, else the first cancellation rejection. Take two
  futures; the outer signal is aborted, the first future rejects with \<open>AbortError\<close> and
  then the second fulfils with \<open>1\<close>. There is no genuine rejection and there is a
  fulfilment, so the rule picks the fulfilment; \<open>race\<close> rejects with the
  \<open>AbortError\<close>, because the fulfilment callback writes \<open>result\<close> only when it is
  still unset.
\<close>

theorem race_priority_rule_counterexample:
  "wf_schedule (length (two_futures fresh_signal)) [Abort, Reject 0 new_AbortError, Fulfill 1 (JNumber 1)]
   \<and> length (settled_futures [Abort, Reject 0 new_AbortError, Fulfill 1 (JNumber 1)])
       = length (two_futures fresh_signal)
   \<and> promise_of (race_priority_rule
        (settlements [Abort, Reject 0 new_AbortError, Fulfill 1 (JNumber 1)]))
       = Fulfilled (JNumber 1)
   \<and> race_promise (race_run pending_signal two_futures
        [Abort, Reject 0 new_AbortError, Fulfill 1 (JNumber 1)])
       = Rejected new_AbortError
   \<and> race_promise (race_run pending_signal two_futures
        [Abort, Reject 0 new_AbortError, Fulfill 1 (JNumber 1)])
       \<noteq> promise_of (race_priority_rule
            (settlements [Abort, Reject 0 new_AbortError, Fulfill 1 (JNumber 1)]))"
  by code_simp

text \<open>
  C2 (amended). Once every future has settled, \<open>race\<close> settles with the first
  genuine rejection in settlement order if there is one, overriding a fulfilment or a
  cancellation rejection recorded before it; otherwise with the first settlement of any
  kind, be it a fulfilment or a cancellation rejection.
\<close>

theorem race_genuine_else_first_settlement:
  assumes "\<not> aborted sig"
    and "executor fresh_signal \<noteq> []"
    and "wf_schedule (length (executor fresh_signal)) evs"
    and "length (settled_futures evs) = length (executor fresh_signal)"
  shows "race_promise (race_run sig executor evs) = promise_of (race_winner (settlements evs))
    \<and> race_winner (settlements evs) =
        (if filter genuine_rejection (settlements evs) \<noteq> []
         then Some (hd (filter genuine_rejection (settlements evs)))
         else Some (hd (settlements evs)))"
proof
  from assms show "race_promise (race_run sig executor evs) = promise_of (race_winner (settlements evs))"
    by (simp add: race_run_promise race_run_result)
next
  from assms(2,4) have "settlements evs \<noteq> []"
    using length_settlements [of evs] by auto
  then show "race_winner (settlements evs) =
        (if filter genuine_rejection (settlements evs) \<noteq> []
         then Some (hd (filter genuine_rejection (settlements evs)))
         else Some (hd (settlements evs)))"
    by (rule race_winner_nonempty)
qed

theorem race_genuine_else_first_settlement_witness:
  "race_promise (race_run pending_signal two_futures [Fulfill 0 (JNumber 1), Reject 1 boom])
     = Rejected boom
   \<and> race_promise (race_run pending_signal two_futures
        [Abort, Reject 0 new_AbortError, Fulfill 1 (JNumber 1)]) = Rejected new_AbortError
   \<and> race_promise (race_run pending_signal two_futures
        [Fulfill 1 (JNumber 1), Reject 0 new_AbortError]) = Fulfilled (JNumber 1)"
proof -
  let ?a = "[Fulfill 0 (JNumber 1), Reject 1 boom]"
  let ?b = "[Abort, Reject 0 new_AbortError, Fulfill 1 (JNumber 1)]"
  let ?c = "[Fulfill 1 (JNumber 1), Reject 0 new_AbortError]"
  have p: "\<not> aborted pending_signal" by (simp add: pending_signal_def)
  have n: "two_futures fresh_signal \<noteq> []" "length (two_futures fresh_signal) = 2"
    by (simp_all add: two_futures_def)
  have w: "wf_schedule 2 ?a" "wf_schedule 2 ?b" "wf_schedule 2 ?c" by code_simp+
  have c: "length (settled_futures ?a) = 2" "length (settled_futures ?b) = 2"
    "length (settled_futures ?c) = 2" by code_simp+
  have r: "promise_of (race_winner (settlements ?a)) = Rejected boom"
    "promise_of (race_winner (settlements ?b)) = Rejected new_AbortError"
    "promise_of (race_winner (settlements ?c)) = Fulfilled (JNumber 1)" by code_simp+
  show ?thesis
    using race_genuine_else_first_settlement [of pending_signal two_futures ?a]
      race_genuine_else_first_settlement [of pending_signal two_futures ?b]
      race_genuine_else_first_settlement [of pending_signal two_futures ?c]
      p n w c r
    by simp
qed

text \<open>
  C3. For a non-empty sequence of futures (and a signal that is not aborted at the
  call), the promise returned by \<open>all\<close> and the one returned by \<open>race\<close> are pending
  exactly as long as fewer futures have settled than the executor returned: no result
  before the last settlement, and a result as soon as the last future has settled.
\<close>

theorem aggregate_pending_until_last_settlement:
  assumes "\<not> aborted sig"
    and "executor fresh_signal \<noteq> []"
    and "wf_schedule (length (executor fresh_signal)) evs"
  shows "(all_promise (all_run sig executor evs) = Pending
           \<longleftrightarrow> length (settled_futures evs) < length (executor fresh_signal))
    \<and> (race_promise (race_run sig executor evs) = Pending
           \<longleftrightarrow> length (settled_futures evs) < length (executor fresh_signal))"
proof
  from assms show "all_promise (all_run sig executor evs) = Pending
           \<longleftrightarrow> length (settled_futures evs) < length (executor fresh_signal)"
    by (simp add: all_run_promise split: option.splits)
next
  show "race_promise (race_run sig executor evs) = Pending
           \<longleftrightarrow> length (settled_futures evs) < length (executor fresh_signal)"
  proof (cases "length (settled_futures evs) < length (executor fresh_signal)")
    case True
    with assms show ?thesis by (simp add: race_run_promise)
  next
    case False
    from False assms(2) have "settlements evs \<noteq> []"
      using length_settlements [of evs] by auto
    then have "race_winner (settlements evs) \<noteq> None"
      by (simp add: race_winner_nonempty)
    then obtain w where "race_winner (settlements evs) = Some w"
      by auto
    then have "promise_of (race_winner (settlements evs)) \<noteq> Pending"
      by (cases w) simp_all
    with False assms show ?thesis
      by (simp add: race_run_promise race_run_result)
  qed
qed

theorem aggregate_pending_until_last_settlement_witness:
  "all_promise (all_run pending_signal three_futures
       [Reject 1 boom, Abort, Reject 0 new_AbortError]) = Pending
   \<and> all_promise (all_run pending_signal three_futures
       [Reject 1 boom, Abort, Reject 0 new_AbortError, Reject 2 new_AbortError]) \<noteq> Pending
   \<and> race_promise (race_run pending_signal three_futures
       [Fulfill 1 (JNumber 1), Reject 0 new_AbortError]) = Pending
   \<and> race_promise (race_run pending_signal three_futures
       [Fulfill 1 (JNumber 1), Reject 0 new_AbortError, Reject 2 new_AbortError]) \<noteq> Pending"
proof -
  let ?a = "[Reject 1 boom, Abort, Reject 0 new_AbortError]"
  let ?b = "[Reject 1 boom, Abort, Reject 0 new_AbortError, Reject 2 new_AbortError]"
  let ?c = "[Fulfill 1 (JNumber 1), Reject 0 new_AbortError]"
  let ?d = "[Fulfill 1 (JNumber 1), Reject 0 new_AbortError, Reject 2 new_AbortError]"
  have p: "\<not> aborted pending_signal" by (simp add: pending_signal_def)
  have n: "three_futures fresh_signal \<noteq> []" "length (three_futures fresh_signal) = 3"
    by (simp_all add: three_futures_def)
  have w: "wf_schedule 3 ?a" "wf_schedule 3 ?b" "wf_schedule 3 ?c" "wf_schedule 3 ?d"
    by code_simp+
  have c: "length (settled_futures ?a) = 2" "length (settled_futures ?b) = 3"
    "length (settled_futures ?c) = 2" "length (settled_futures ?d) = 3"
    by code_simp+
  show ?thesis
    using aggregate_pending_until_last_settlement [of pending_signal three_futures ?a]
      aggregate_pending_until_last_settlement [of pending_signal three_futures ?b]
      aggregate_pending_until_last_settlement [of pending_signal three_futures ?c]
      aggregate_pending_until_last_settlement [of pending_signal three_futures ?d]
      p n w c
    by simp
qed

text \<open>
  C4. With a signal that is not aborted and an executor that returns the empty
  sequence, the promise returned by \<open>all\<close> is pending after the call and stays pending
  whatever happens afterwards: \<open>settled\<close> is the only place that resolves it, and it is
  called from the callbacks of the futures only. The claim asks for an immediate
  fulfilment with the empty sequence.
\<close>

theorem all_empty_sequence_stays_pending:
  "all_promise (all_run (sig\<lparr>aborted := False\<rparr>) no_futures evs) = Pending
   \<and> all_promise (all pending_signal no_futures) = Pending"
proof -
  have "all_promise (all_run (sig\<lparr>aborted := False\<rparr>) no_futures evs) = Pending"
    by (rule all_run_empty_pending) (simp_all add: no_futures_def)
  moreover have "all_promise (all_run pending_signal no_futures []) = Pending"
    by (rule all_run_empty_pending) (simp_all add: no_futures_def pending_signal_def)
  ultimately show ?thesis
    by (simp add: all_run_Nil)
qed

text \<open>
  C5. On a signal that is already aborted, \<open>all\<close> and \<open>race\<close> reject with a
  cancellation error at once; the executor is not invoked (the state does not depend on
  it), no inner controller is created and no listener is registered.
\<close>

theorem aborted_token_short_circuit:
  assumes "aborted sig"
  shows "all_promise (all sig executor) = Rejected new_AbortError
    \<and> race_promise (race sig executor) = Rejected new_AbortError
    \<and> isAbortError new_AbortError
    \<and> executor_calls (all sig executor) = 0
    \<and> executor_calls (race sig executor) = 0
    \<and> innerAbortController (all sig executor) = None
    \<and> innerAbortController (race sig executor) = None
    \<and> signal_listeners (all sig executor) = map Foreign (listeners sig)
    \<and> signal_listeners (race sig executor) = map Foreign (listeners sig)
    \<and> all sig executor = all sig other_executor
    \<and> race sig executor = race sig other_executor"
  using assms
  by (simp add: all_def race_def settle_def isAbortError_new_AbortError)

theorem aborted_token_short_circuit_witness:
  "all_promise (all aborted_signal three_futures) = Rejected new_AbortError
   \<and> race_promise (race aborted_signal three_futures) = Rejected new_AbortError
   \<and> executor_calls (all aborted_signal three_futures) = 0
   \<and> executor_calls (race aborted_signal three_futures) = 0
   \<and> all aborted_signal three_futures = all aborted_signal two_futures"
proof -
  have a: "aborted aborted_signal" by (simp add: aborted_signal_def)
  show ?thesis
    using aborted_token_short_circuit [OF a, of three_futures two_futures]
    by blast
qed

text \<open>
  C6. When \<open>all\<close> fulfils with \<open>vs\<close>, then \<open>vs\<close> has one entry per future and the
  entry at every index \<open>i\<close> is the value the future at index \<open>i\<close> fulfilled with,
  whatever the order of the settlements.
\<close>

theorem all_results_by_index:
  assumes "\<not> aborted sig"
    and "wf_schedule (length (executor fresh_signal)) evs"
    and "all_promise (all_run sig executor evs) = Fulfilled vs"
  shows "length vs = length (executor fresh_signal)
    \<and> (\<forall>i < length (executor fresh_signal). Fulfill i (vs ! i) \<in> set evs)"
proof -
  let ?n = "length (executor fresh_signal)"
  let ?s = "all_run sig executor evs"
  have ne: "executor fresh_signal \<noteq> []"
  proof
    assume "executor fresh_signal = []"
    with assms(1) have "all_promise ?s = Pending"
      by (rule all_run_empty_pending)
    with assms(3) show False by simp
  qed
  from assms(1) ne assms(2) have pr: "all_promise ?s =
     (if length (settled_futures evs) < ?n then Pending
      else case rejection ?s of Some r \<Rightarrow> Rejected r | None \<Rightarrow> Fulfilled (results ?s))"
    by (rule all_run_promise)
  with assms(3) have k: "\<not> length (settled_futures evs) < ?n"
    by (auto split: if_splits)
  with wf_schedule_length [OF assms(2)] have complete: "length (settled_futures evs) = ?n"
    by simp
  from pr k assms(3) have rej: "rejection ?s = None" and vs: "vs = results ?s"
    by (auto split: option.splits)
  from rej have no_reasons: "rejection_reasons evs = []"
    by (simp add: all_run_rejection first_failure_None)
  from all_run_results [of sig executor evs] assms(1,2)
  have len: "length (results ?s) = ?n"
    and nth: "\<And>i v. Fulfill i v \<in> set evs \<Longrightarrow> results ?s ! i = v"
    by auto
  have "Fulfill i (vs ! i) \<in> set evs" if "i < ?n" for i
  proof -
    from that wf_schedule_complete [OF assms(2) complete]
    have "i \<in> set (settled_futures evs)" by simp
    then consider v where "Fulfill i v \<in> set evs" | r where "Reject i r \<in> set evs"
      using settled_cases by blast
    then show ?thesis
    proof cases
      case 1
      with nth [OF 1] vs show ?thesis by simp
    next
      case 2
      from Reject_reason [OF 2] no_reasons show ?thesis by simp
    qed
  qed
  with len vs show ?thesis by simp
qed

theorem all_results_by_index_witness:
  "all_promise (all_run pending_signal three_futures
      [Fulfill 1 (JNumber 1), Fulfill 0 (JNumber 3), Fulfill 2 (JNumber 2)])
     = Fulfilled [JNumber 3, JNumber 1, JNumber 2]
   \<and> Fulfill 0 ([JNumber 3, JNumber 1, JNumber 2] ! 0)
       \<in> set [Fulfill 1 (JNumber 1), Fulfill 0 (JNumber 3), Fulfill 2 (JNumber 2)]
   \<and> Fulfill 1 ([JNumber 3, JNumber 1, JNumber 2] ! 1)
       \<in> set [Fulfill 1 (JNumber 1), Fulfill 0 (JNumber 3), Fulfill 2 (JNumber 2)]
   \<and> Fulfill 2 ([JNumber 3, JNumber 1, JNumber 2] ! 2)
       \<in> set [Fulfill 1 (JNumber 1), Fulfill 0 (JNumber 3), Fulfill 2 (JNumber 2)]"
proof -
  let ?evs = "[Fulfill 1 (JNumber 1), Fulfill 0 (JNumber 3), Fulfill 2 (JNumber 2)]"
  let ?vs = "[JNumber 3, JNumber 1, JNumber 2]"
  have p: "\<not> aborted pending_signal" by (simp add: pending_signal_def)
  have n: "length (three_futures fresh_signal) = 3" by (simp add: three_futures_def)
  have w: "wf_schedule (length (three_futures fresh_signal)) ?evs" by code_simp
  have f: "all_promise (all_run pending_signal three_futures ?evs) = Fulfilled ?vs"
    by code_simp
  from all_results_by_index [OF p w f] n
  have "\<forall>i<3. Fulfill i (?vs ! i) \<in> set ?evs" by simp
  then have "Fulfill 0 (?vs ! 0) \<in> set ?evs \<and> Fulfill 1 (?vs ! 1) \<in> set ?evs
    \<and> Fulfill 2 (?vs ! 2) \<in> set ?evs"
    by simp
  with f show ?thesis by blast
qed

text \<open>
  C7, as stated, fails for the empty sequence: no future is left to settle, yet the
  listener that \<open>all\<close> and \<open>race\<close> registered on the outer signal is still there,
  right after the call and after the signal has been aborted.
\<close>

theorem listener_kept_for_empty_sequence:
  "length (settled_futures [Abort]) = length (no_futures fresh_signal)
   \<and> wf_schedule (length (no_futures fresh_signal)) [Abort]
   \<and> AbortInner \<in> set (signal_listeners (all_run pending_signal no_futures []))
   \<and> AbortInner \<in> set (signal_listeners (all_run pending_signal no_futures [Abort]))
   \<and> AbortInner \<in> set (signal_listeners (race_run pending_signal no_futures []))
   \<and> AbortInner \<in> set (signal_listeners (race_run pending_signal no_futures [Abort]))"
  by code_simp

text \<open>
  C7 (amended). For a non-empty sequence of futures, the abort listener that \<open>all\<close>
  and \<open>race\<close> register on the outer signal is there exactly as long as fewer futures
  have settled than the executor returned; once all have settled the listeners of the
  outer signal are those it had before the call.
\<close>

theorem listener_removed_at_last_settlement:
  assumes "\<not> aborted sig"
    and "executor fresh_signal \<noteq> []"
    and "wf_schedule (length (executor fresh_signal)) evs"
  shows "(AbortInner \<in> set (signal_listeners (all_run sig executor evs))
           \<longleftrightarrow> length (settled_futures evs) < length (executor fresh_signal))
    \<and> (AbortInner \<in> set (signal_listeners (race_run sig executor evs))
           \<longleftrightarrow> length (settled_futures evs) < length (executor fresh_signal))
    \<and> (length (settled_futures evs) = length (executor fresh_signal) \<longrightarrow>
          signal_listeners (all_run sig executor evs) = map Foreign (listeners sig)
        \<and> signal_listeners (race_run sig executor evs) = map Foreign (listeners sig))"
  using assms
  by (auto simp: all_run_listeners race_run_listeners)

theorem listener_removed_at_last_settlement_witness:
  "AbortInner \<in> set (signal_listeners (all_run pending_signal three_futures
       [Reject 1 boom, Abort, Reject 0 new_AbortError]))
   \<and> signal_listeners (all_run pending_signal three_futures
       [Reject 1 boom, Abort, Reject 0 new_AbortError, Reject 2 new_AbortError])
      = map Foreign (listeners pending_signal)
   \<and> AbortInner \<in> set (signal_listeners (race_run pending_signal three_futures
       [Reject 1 boom, Abort, Reject 0 new_AbortError]))
   \<and> signal_listeners (race_run pending_signal three_futures
       [Reject 1 boom, Abort, Reject 0 new_AbortError, Reject 2 new_AbortError])
      = map Foreign (listeners pending_signal)"
proof -
  let ?a = "[Reject 1 boom, Abort, Reject 0 new_AbortError]"
  let ?b = "[Reject 1 boom, Abort, Reject 0 new_AbortError, Reject 2 new_AbortError]"
  have p: "\<not> aborted pending_signal" by (simp add: pending_signal_def)
  have n: "three_futures fresh_signal \<noteq> []" "length (three_futures fresh_signal) = 3"
    by (simp_all add: three_futures_def)
  have w: "wf_schedule 3 ?a" "wf_schedule 3 ?b" by code_simp+
  have c: "length (settled_futures ?a) = 2" "length (settled_futures ?b) = 3" by code_simp+
  show ?thesis
    using listener_removed_at_last_settlement [of pending_signal three_futures ?a]
      listener_removed_at_last_settlement [of pending_signal three_futures ?b]
      p n w c
    by simp
qed

end
